theory Spec2Isabelle
  imports Main
begin

text \<open>
  A shallow embedding of the relation extractor of \<open>base_extractor.py\<close> and
  \<open>streaming_extractor.py\<close>: the parser of the model's tagged output
  (\<open>extract_triplets_typed\<close>), the segmenter (\<open>segment_document\<close>), the inference step
  (\<open>process_segment\<close>), the worker thread (\<open>_process_queue\<close>) and the coroutine
  (\<open>process_stream\<close>). The tokenizer, the sentence splitter, the language detector and
  the model are parameters. Line numbers are those of the two source files.
\<close>

section \<open>Python strings\<close>

text \<open>
  A Python \<open>str\<close> is a sequence of Unicode code points. It is modelled as a list of
  natural numbers, one per code point, so that \<open>length\<close> counts what \<open>len\<close> counts and
  the whitespace of \<open>str.split()\<close> and \<open>str.strip()\<close> is the one of CPython, also beyond
  ASCII. Literals of the source are written \<open>py ''...''\<close>.
\<close>

type_synonym pystr = "nat list"

definition py :: "string \<Rightarrow> pystr" where
  "py s = map of_char s"

text \<open>
  \<open>Py_UNICODE_ISSPACE\<close>: the code points that \<open>str.split()\<close> splits at and
  \<open>str.strip()\<close> removes (9-13, 28-32, 0x85, 0xA0, 0x1680, 0x2000-0x200A, 0x2028,
  0x2029, 0x202F, 0x205F, 0x3000).
\<close>

definition is_space :: "nat \<Rightarrow> bool" where
  "is_space c \<longleftrightarrow>
     (9 \<le> c \<and> c \<le> 13) \<or> (28 \<le> c \<and> c \<le> 32) \<or> c = 133 \<or> c = 160 \<or> c = 5760 \<or>
     (8192 \<le> c \<and> c \<le> 8202) \<or> c = 8232 \<or> c = 8233 \<or> c = 8239 \<or> c = 8287 \<or> c = 12288"

text \<open>\<open>s.strip()\<close>: leading and trailing whitespace removed.\<close>

definition strip :: "pystr \<Rightarrow> pystr" where
  "strip s = rev (dropWhile is_space (rev (dropWhile is_space s)))"

text \<open>
  \<open>s.split()\<close>: the maximal runs of non-whitespace code points, in order. The first
  argument is the run being read.
\<close>

fun split_from :: "pystr \<Rightarrow> pystr \<Rightarrow> pystr list" where
  "split_from word [] = (if word = [] then [] else [word])"
| "split_from word (c # cs) =
     (if is_space c then (if word = [] then split_from [] cs else word # split_from [] cs)
      else split_from (word @ [c]) cs)"

definition split_ws :: "pystr \<Rightarrow> pystr list" where
  "split_ws s = split_from [] s"

text \<open>\<open>sep.join(xs)\<close> for the separator \<open>' '\<close>.\<close>

fun join_sp :: "pystr list \<Rightarrow> pystr" where
  "join_sp [] = []"
| "join_sp [x] = x"
| "join_sp (x # y # ys) = x @ py '' '' @ join_sp (y # ys)"

definition startswith :: "pystr \<Rightarrow> pystr \<Rightarrow> bool" where
  "startswith p s \<longleftrightarrow> take (length p) s = p"

definition endswith :: "pystr \<Rightarrow> pystr \<Rightarrow> bool" where
  "endswith p s \<longleftrightarrow> drop (length s - length p) s = p"

text \<open>
  \<open>s.replace(old, "")\<close>: every non-overlapping occurrence of \<open>old\<close>, found from left
  to right, is removed. With an empty \<open>old\<close> Python returns \<open>s\<close> unchanged.
\<close>

function replace_del :: "pystr \<Rightarrow> pystr \<Rightarrow> pystr" where
  "replace_del old [] = []"
| "replace_del old (c # cs) =
     (if old \<noteq> [] \<and> startswith old (c # cs)
      then replace_del old (drop (length old) (c # cs))
      else c # replace_del old cs)"
  by pat_completeness auto
termination
  by (relation "measure (\<lambda>(old, s). length s)") auto

text \<open>\<open>token[1:-1]\<close>: a slice never raises; it is empty when \<open>len(token) \<le> 2\<close>.\<close>

definition inner :: "pystr \<Rightarrow> pystr" where
  "inner token = butlast (tl token)"

section \<open>The triplet parser: \<open>extract_triplets_typed\<close>\<close>

datatype py_error = Exception string

text \<open>The dictionary built for one triplet; the source's key for the relation is \<open>type\<close>.\<close>

record triplet =
  head :: pystr
  head_type :: pystr
  type :: pystr
  tail :: pystr
  tail_type :: pystr

text \<open>The values of \<open>current\<close>: \<open>'x'\<close>, \<open>'t'\<close>, \<open>'s'\<close>, \<open>'o'\<close>.\<close>

datatype mode = Cur_x | Cur_t | Cur_s | Cur_o

text \<open>The local variables of the parser; \<open>object\<close> is the source's \<open>object_\<close>.\<close>

record parser_state =
  triplets :: "triplet list"
  current :: mode
  subject :: pystr
  relation :: pystr
  object :: pystr
  object_type :: pystr
  subject_type :: pystr

definition initial_state :: parser_state where
  "initial_state = \<lparr>triplets = [], current = Cur_x, subject = [], relation = [],
     object = [], object_type = [], subject_type = []\<rparr>"

text \<open>The dictionary literal of lines 219-225, 234-240 and 258-264.\<close>

definition candidate :: "parser_state \<Rightarrow> triplet" where
  "candidate st = \<lparr>head = strip (subject st), head_type = subject_type st,
     type = strip (relation st), tail = strip (object st), tail_type = object_type st\<rparr>"

text \<open>\<open>all(triplet.values())\<close>: a string is true when it is not empty.\<close>

definition all_values :: "triplet \<Rightarrow> bool" where
  "all_values t \<longleftrightarrow> head t \<noteq> [] \<and> head_type t \<noteq> [] \<and> type t \<noteq> [] \<and> tail t \<noteq> [] \<and> tail_type t \<noteq> []"

text \<open>\<open>if all(triplet.values()): triplets.append(triplet)\<close>\<close>

definition append_if_complete :: "parser_state \<Rightarrow> parser_state" where
  "append_if_complete st =
     (if all_values (candidate st) then st\<lparr>triplets := triplets st @ [candidate st]\<rparr> else st)"

text \<open>The body of the loop over the tokens (lines 216-255).\<close>

definition step :: "parser_state \<Rightarrow> pystr \<Rightarrow> parser_state" where
  "step st token =
     (if token = py ''<triplet>'' \<or> token = py ''<relation>'' then
        (let st1 = st\<lparr>current := Cur_t\<rparr>;
             st2 = (if relation st1 \<noteq> [] then (append_if_complete st1)\<lparr>relation := []\<rparr> else st1)
         in st2\<lparr>subject := []\<rparr>)
      else if startswith (py ''<'') token \<and> endswith (py ''>'') token then
        (if current st = Cur_t \<or> current st = Cur_o then
           (let st1 = st\<lparr>current := Cur_s\<rparr>;
                st2 = (if relation st1 \<noteq> [] then append_if_complete st1 else st1)
            in st2\<lparr>object := [], subject_type := inner token\<rparr>)
         else st\<lparr>current := Cur_o, object_type := inner token, relation := []\<rparr>)
      else
        (if current st = Cur_t then st\<lparr>subject := subject st @ py '' '' @ token\<rparr>
         else if current st = Cur_s then st\<lparr>object := object st @ py '' '' @ token\<rparr>
         else if current st = Cur_o then st\<lparr>relation := relation st @ py '' '' @ token\<rparr>
         else st))"

text \<open>The flush after the loop (lines 257-264): it tests the unstripped accumulators.\<close>

definition final_flush :: "parser_state \<Rightarrow> triplet list" where
  "final_flush st =
     (if subject st \<noteq> [] \<and> relation st \<noteq> [] \<and> object st \<noteq> [] \<and> object_type st \<noteq> []
         \<and> subject_type st \<noteq> []
      then triplets st @ [candidate st] else triplets st)"

text \<open>Lines 212-213: the sentinel tokens are removed, then the text is split.\<close>

definition tokenize :: "pystr \<Rightarrow> pystr list" where
  "tokenize text =
     split_ws (replace_del (py ''__en__'') (replace_del (py ''tp_XX'') (replace_del (py ''</s>'')
       (replace_del (py ''<pad>'') (replace_del (py ''<s>'') text)))))"

text \<open>
  The \<open>try\<close> block. None of the string operations in it raises on a \<open>str\<close>, so it
  always ends in \<open>Inr\<close>; the result type keeps the place of the exception that the
  \<open>except\<close> clause would catch.
\<close>

definition try_parse :: "pystr \<Rightarrow> py_error + triplet list" where
  "try_parse text = Inr (final_flush (foldl step initial_state (tokenize text)))"

definition extract_triplets_typed :: "pystr \<Rightarrow> py_error + triplet list" where
  "extract_triplets_typed text =
     (if text = [] then Inr []
      else (case try_parse (strip text) of Inl e \<Rightarrow> Inr [] | Inr ts \<Rightarrow> Inr ts))"

section \<open>The extractor object and its collaborators\<close>

text \<open>
  The fields of \<open>self\<close> that the segmenter and the pipeline read. The tokenizer, the
  sentence splitter, the language detector and the model are external: each is a
  function the object carries.
  \<^item> \<open>get_token_length text\<close> is \<open>len(self.tokenizer.encode(text))\<close>;
  \<^item> \<open>sent_tokenize\<close> is NLTK's sentence splitter;
  \<^item> \<open>detect_language\<close> always returns a language code (it falls back to \<open>en_XX\<close>);
  \<^item> \<open>run_inference segment src_lang\<close> is the call \<open>self.extractor(segment, ...)\<close>: it
    raises, or returns \<open>None\<close> for a result that is empty or not a list, or the list of
    the \<open>translation_token_ids\<close> entries of the returned dictionaries;
  \<^item> \<open>batch_decode\<close> is \<open>self.extractor.tokenizer.batch_decode\<close>;
  \<^item> \<open>safe_length\<close> is set once, to \<open>int(0.9 * max_length)\<close>;
  \<^item> \<open>timestamp_id\<close> is \<open>str(datetime.now().timestamp())\<close>, the identifier of a
    document that has none.
\<close>

record extractor =
  get_token_length :: "pystr \<Rightarrow> int"
  sent_tokenize :: "pystr \<Rightarrow> pystr list"
  detect_language :: "pystr \<Rightarrow> pystr"
  run_inference :: "pystr \<Rightarrow> pystr \<Rightarrow> py_error + int list option list option"
  batch_decode :: "int list list \<Rightarrow> py_error + pystr list"
  max_length :: int
  safe_length :: int
  batch_size :: int
  queue_size :: int
  timestamp_id :: pystr

section \<open>The segmenter: \<open>segment_document\<close>\<close>

text \<open>\<open>if xs: segments.append(' '.join(xs))\<close>\<close>

definition flush :: "pystr list \<Rightarrow> pystr list \<Rightarrow> pystr list" where
  "flush segments xs = (if xs \<noteq> [] then segments @ [join_sp xs] else segments)"

text \<open>
  The loop over the words of an oversized sentence (lines 139-148), on the state
  \<open>(segments, temp_segment, temp_length)\<close>.
\<close>

fun pack_words ::
  "extractor \<Rightarrow> pystr list \<Rightarrow> pystr list \<times> pystr list \<times> int \<Rightarrow> pystr list \<times> pystr list \<times> int"
where
  "pack_words self [] st = st"
| "pack_words self (word # words) (segments, temp_segment, temp_length) =
     (let word_tokens = get_token_length self (word @ py '' '') in
      if temp_length + word_tokens > safe_length self
      then pack_words self words (flush segments temp_segment, [word], word_tokens)
      else pack_words self words (segments, temp_segment @ [word], temp_length + word_tokens))"

text \<open>
  The loop over the sentences (lines 126-160), on the state
  \<open>(segments, current_segment, current_length)\<close>. Before an oversized sentence the
  pending segment is flushed and reset only when it is not empty.
\<close>

fun pack_sentences ::
  "extractor \<Rightarrow> pystr list \<Rightarrow> pystr list \<times> pystr list \<times> int \<Rightarrow> pystr list \<times> pystr list \<times> int"
where
  "pack_sentences self [] st = st"
| "pack_sentences self (sentence # sentences) (segments, current_segment, current_length) =
     (let sentence_tokens = get_token_length self sentence in
      if sentence_tokens > safe_length self then
        (let (segments1, current_segment1, current_length1) =
               (if current_segment \<noteq> [] then (segments @ [join_sp current_segment], [], 0)
                else (segments, current_segment, current_length));
             (segments2, temp_segment, temp_length) =
               pack_words self (split_ws sentence) (segments1, [], 0)
         in pack_sentences self sentences
              (flush segments2 temp_segment, current_segment1, current_length1))
      else if current_length + sentence_tokens > safe_length self then
        pack_sentences self sentences (flush segments current_segment, [sentence], sentence_tokens)
      else
        pack_sentences self sentences
          (segments, current_segment @ [sentence], current_length + sentence_tokens))"

definition segment_document :: "extractor \<Rightarrow> pystr \<Rightarrow> pystr list" where
  "segment_document self text =
     (let (segments, current_segment, current_length) =
            pack_sentences self (sent_tokenize self text) ([], [], 0)
      in flush segments current_segment)"

section \<open>The inference step: \<open>process_segment\<close>\<close>

text \<open>
  The calls of the model are an effect: each call \<open>self.extractor(segment, ...)\<close> is
  recorded, with its segment and source language, in a log that the functions pass on.
\<close>

type_synonym call_log = "(pystr \<times> pystr) list"

text \<open>
  The \<open>try\<close> block of \<open>process_segment\<close> (lines 170-195). An exception of the model
  call, of the decoding or of the parser leaves the block as \<open>Inl\<close>.
\<close>

definition try_process_segment ::
  "extractor \<Rightarrow> pystr \<Rightarrow> pystr \<Rightarrow> call_log \<Rightarrow> (py_error + triplet list) \<times> call_log"
where
  "try_process_segment self segment src_lang calls =
     (if get_token_length self segment > safe_length self then (Inr [], calls)
      else
        (let calls' = calls @ [(segment, src_lang)] in
         case run_inference self segment src_lang of
           Inl e \<Rightarrow> (Inl e, calls')
         | Inr None \<Rightarrow> (Inr [], calls')
         | Inr (Some []) \<Rightarrow> (Inr [], calls')
         | Inr (Some (None # _)) \<Rightarrow> (Inr [], calls')
         | Inr (Some (Some translation_ids # _)) \<Rightarrow>
             (case batch_decode self [translation_ids] of
                Inl e \<Rightarrow> (Inl e, calls')
              | Inr [] \<Rightarrow> (Inr [], calls')
              | Inr (decoded # _) \<Rightarrow> (extract_triplets_typed decoded, calls'))))"

text \<open>\<open>except Exception: return []\<close>\<close>

definition process_segment ::
  "extractor \<Rightarrow> pystr \<Rightarrow> pystr \<Rightarrow> call_log \<Rightarrow> (py_error + triplet list) \<times> call_log"
where
  "process_segment self segment src_lang calls =
     (case try_process_segment self segment src_lang calls of
        (Inl e, calls') \<Rightarrow> (Inr [], calls')
      | (Inr ts, calls') \<Rightarrow> (Inr ts, calls'))"

section \<open>The streaming pipeline\<close>

text \<open>The dictionaries put on the input queue and on the output queue.\<close>

record work_item =
  item_doc_id :: pystr
  item_segment :: pystr
  item_src_lang :: pystr

record segment_result =
  result_doc_id :: pystr
  result_triplets :: "triplet list"

text \<open>A document of the stream; a key that is absent is \<open>None\<close>.\<close>

record document =
  document_id :: "pystr option"
  document_text :: "pystr option"
  document_path :: "pystr option"

text \<open>\<open>final_result\<close>, with the keys \<open>doc_id\<close>, \<open>language\<close>, \<open>triplets\<close>,
  \<open>num_segments\<close> and \<open>path\<close>.\<close>

record document_result =
  final_doc_id :: pystr
  final_language :: pystr
  final_triplets :: "triplet list"
  final_num_segments :: nat
  final_path :: "pystr option"

text \<open>
  What the coroutine and the worker thread share: the two queues (the oldest entry
  first), the stop event and whether the thread is alive; and the log of the model calls.
\<close>

record pipeline_state =
  input_queue :: "work_item list"
  output_queue :: "segment_result list"
  stop_event :: bool
  thread_alive :: bool
  inference_log :: call_log

subsection \<open>The worker: \<open>_process_queue\<close>\<close>

text \<open>
  The inner loop (lines 93-99): items are taken while the batch is short of
  \<open>batch_size\<close> and the queue is not empty. The worker is the only consumer, so
  \<open>get_nowait\<close> does not fail on a queue that is not empty.
\<close>

fun drain_batch :: "int \<Rightarrow> work_item list \<Rightarrow> work_item list \<Rightarrow> work_item list \<times> work_item list" where
  "drain_batch bs batch [] = (batch, [])"
| "drain_batch bs batch (item # queue) =
     (if int (length batch) < bs then drain_batch bs (batch @ [item]) queue
      else (batch, item # queue))"

definition put_result :: "segment_result \<Rightarrow> pipeline_state \<Rightarrow> pipeline_state" where
  "put_result r st = st\<lparr>output_queue := output_queue st @ [r]\<rparr>"

text \<open>
  The loop in the \<open>try\<close> block (lines 107-112). An exception stops it; the results
  put before it stay on the queue.
\<close>

fun process_items :: "extractor \<Rightarrow> work_item list \<Rightarrow> pipeline_state \<Rightarrow> py_error option \<times> pipeline_state" where
  "process_items self [] st = (None, st)"
| "process_items self (item # items) st =
     (case process_segment self (item_segment item) (item_src_lang item) (inference_log st) of
        (Inl e, calls') \<Rightarrow> (Some e, st\<lparr>inference_log := calls'\<rparr>)
      | (Inr ts, calls') \<Rightarrow>
          process_items self items
            (put_result \<lparr>result_doc_id = item_doc_id item, result_triplets = ts\<rparr>
               (st\<lparr>inference_log := calls'\<rparr>)))"

text \<open>
  Lines 106-119: on an exception every identifier of the batch gets an empty result.
\<close>

definition process_batch :: "extractor \<Rightarrow> work_item list \<Rightarrow> pipeline_state \<Rightarrow> pipeline_state" where
  "process_batch self batch st =
     (case process_items self batch st of
        (None, st') \<Rightarrow> st'
      | (Some e, st') \<Rightarrow>
          foldl (\<lambda>s doc_id. put_result \<lparr>result_doc_id = doc_id, result_triplets = []\<rparr> s) st'
            (map item_doc_id batch))"

text \<open>
  The worker's loop, run from its head until the thread exits or idles. It idles when
  the batch is empty and the stop event is not set: the source then repeats the loop
  until another thread changes the queue or the event, which is where this function
  hands the state back.
\<close>

datatype worker_status = Exited | Idle

lemma drain_batch_length:
  "drain_batch bs batch queue = (batch', rest) \<Longrightarrow>
     length batch' + length rest = length batch + length queue"
  by (induction queue arbitrary: batch) (auto split: if_splits)

lemma drain_batch_shrinks:
  "(batch, rest) = drain_batch bs [] queue \<Longrightarrow> batch \<noteq> [] \<Longrightarrow> length rest < length queue"
  using drain_batch_length [of bs "[]" queue batch rest] by (cases batch) simp_all

lemma process_items_input_queue:
  "process_items self items st = (r, st') \<Longrightarrow> input_queue st' = input_queue st"
  by (induction items arbitrary: st)
    (auto simp: put_result_def split: prod.splits sum.splits)

lemma foldl_put_input_queue:
  "input_queue (foldl (\<lambda>s d. put_result (f d) s) st ds) = input_queue st"
  by (induction ds arbitrary: st) (simp_all add: put_result_def)

lemma process_batch_input_queue:
  "input_queue (process_batch self batch st) = input_queue st"
  by (auto simp: process_batch_def foldl_put_input_queue
      split: prod.splits option.splits dest: process_items_input_queue)

function process_queue :: "extractor \<Rightarrow> pipeline_state \<Rightarrow> worker_status \<times> pipeline_state" where
  "process_queue self st =
     (if \<not> stop_event st \<or> input_queue st \<noteq> [] then
        (case drain_batch (batch_size self) [] (input_queue st) of
           (batch, rest) \<Rightarrow>
             if batch = [] then
               (if stop_event st then (Exited, st\<lparr>input_queue := rest, thread_alive := False\<rparr>)
                else (Idle, st\<lparr>input_queue := rest\<rparr>))
             else process_queue self (process_batch self batch (st\<lparr>input_queue := rest\<rparr>)))
      else (Exited, st\<lparr>thread_alive := False\<rparr>))"
  by pat_completeness auto
termination
  by (relation "measure (\<lambda>(self, st). length (input_queue st))")
    (auto simp: process_batch_input_queue dest: drain_batch_shrinks)

declare process_queue.simps [simp del]

text \<open>The thread runs only while it is alive.\<close>

definition run_worker :: "extractor \<Rightarrow> pipeline_state \<Rightarrow> worker_status \<times> pipeline_state" where
  "run_worker self st = (if thread_alive st then process_queue self st else (Exited, st))"

subsection \<open>The correlator: the result loop of \<open>process_stream\<close>\<close>

text \<open>
  The loop of lines 60-64 over the results in the order in which \<open>_get_result\<close> hands
  them over, which is the order of the output queue: \<open>_get_result\<close> returns the oldest
  result as soon as there is one, and the \<open>None\<close> it returns on an empty queue once the
  stop event is set is skipped by the loop. A result of another document is taken and
  nothing is done with it. When the results end before \<open>len(segments)\<close> of them
  matched, the loop polls for ever: \<open>None\<close>. Otherwise it returns the triplets and the
  results left on the queue.
\<close>

fun collect ::
  "pystr \<Rightarrow> nat \<Rightarrow> nat \<Rightarrow> triplet list \<Rightarrow> segment_result list
     \<Rightarrow> (triplet list \<times> segment_result list) option"
where
  "collect doc_id n segments_processed doc_results [] =
     (if segments_processed < n then None else Some (doc_results, []))"
| "collect doc_id n segments_processed doc_results (result # queue) =
     (if segments_processed < n then
        (if result_doc_id result = doc_id
         then collect doc_id n (segments_processed + 1) (doc_results @ result_triplets result) queue
         else collect doc_id n segments_processed doc_results queue)
      else Some (doc_results, result # queue))"

text \<open>Lines 57-72: the loop, then the dictionary that is yielded.\<close>

definition correlate ::
  "pystr \<Rightarrow> pystr \<Rightarrow> pystr option \<Rightarrow> pystr list \<Rightarrow> segment_result list
     \<Rightarrow> (document_result \<times> segment_result list) option"
where
  "correlate doc_id src_lang path segments queue =
     (case collect doc_id (length segments) 0 [] queue of
        None \<Rightarrow> None
      | Some (doc_results, rest) \<Rightarrow>
          Some (\<lparr>final_doc_id = doc_id, final_language = src_lang, final_triplets = doc_results,
                  final_num_segments = length segments, final_path = path\<rparr>, rest))"

subsection \<open>\<open>process_stream\<close>\<close>

text \<open>
  The coroutine and the worker thread run side by side. The model runs the worker at
  the two points where the coroutine waits for it: when \<open>put\<close> finds the bounded input
  queue full, and when the result loop polls the output queue. At both the worker runs
  until it idles or exits.
\<close>

definition queue_full :: "extractor \<Rightarrow> pipeline_state \<Rightarrow> bool" where
  "queue_full self st \<longleftrightarrow> 0 < queue_size self \<and> queue_size self \<le> int (length (input_queue st))"

text \<open>
  Lines 50-55. \<open>Queue.put\<close> blocks while the queue is full; a queue that stays full
  after the worker ran blocks for ever: \<open>None\<close>.
\<close>

fun submit :: "extractor \<Rightarrow> work_item list \<Rightarrow> pipeline_state \<Rightarrow> pipeline_state option" where
  "submit self [] st = Some st"
| "submit self (item # items) st =
     (let st1 = (if queue_full self st then snd (run_worker self st) else st) in
      if queue_full self st1 then None
      else submit self items (st1\<lparr>input_queue := input_queue st1 @ [item]\<rparr>))"

definition make_items :: "pystr \<Rightarrow> pystr \<Rightarrow> pystr list \<Rightarrow> work_item list" where
  "make_items doc_id src_lang segments =
     map (\<lambda>segment. \<lparr>item_doc_id = doc_id, item_segment = segment, item_src_lang = src_lang\<rparr>)
       segments"

text \<open>
  The body of the loop over the documents (lines 40-77) for one document: \<open>None\<close>
  when the document is skipped for its empty text, else the result and the state, or
  \<open>None\<close> in their place when the coroutine waits for ever.
\<close>

definition document_identifier :: "extractor \<Rightarrow> document \<Rightarrow> pystr" where
  "document_identifier self doc = (case document_id doc of Some i \<Rightarrow> i | None \<Rightarrow> timestamp_id self)"

definition document_stripped :: "document \<Rightarrow> pystr" where
  "document_stripped doc = strip (case document_text doc of Some t \<Rightarrow> t | None \<Rightarrow> [])"

definition process_document ::
  "extractor \<Rightarrow> document \<Rightarrow> pipeline_state \<Rightarrow> (document_result \<times> pipeline_state) option option"
where
  "process_document self doc st =
     (let doc_id = document_identifier self doc;
          text = document_stripped doc
      in if text = [] then None
         else
           (let src_lang = detect_language self text;
                segments = segment_document self text
            in Some
                (case submit self (make_items doc_id src_lang segments) st of
                   None \<Rightarrow> None
                 | Some st1 \<Rightarrow>
                     (let st2 = snd (run_worker self st1) in
                      case correlate doc_id src_lang (document_path doc) segments (output_queue st2) of
                        None \<Rightarrow> None
                      | Some (final_result, rest) \<Rightarrow>
                          Some (final_result, st2\<lparr>output_queue := rest\<rparr>)))))"

text \<open>
  The loop over the documents: the results yielded, and the state at the end of the
  stream, or \<open>None\<close> when the coroutine waits for ever inside a document.
\<close>

fun process_documents ::
  "extractor \<Rightarrow> document list \<Rightarrow> pipeline_state \<Rightarrow> document_result list \<times> pipeline_state option"
where
  "process_documents self [] st = ([], Some st)"
| "process_documents self (doc # docs) st =
     (case process_document self doc st of
        None \<Rightarrow> process_documents self docs st
      | Some None \<Rightarrow> ([], None)
      | Some (Some (final_result, st')) \<Rightarrow>
          (case process_documents self docs st' of
             (results, final) \<Rightarrow> (final_result # results, final)))"

text \<open>
  \<open>process_stream\<close>: the thread is started unless one is alive (lines 33-36); at the
  end of the stream the \<open>finally\<close> clause sets the stop event and joins the thread
  (lines 83-85), that is, it returns when the worker has exited.
\<close>

definition process_stream ::
  "extractor \<Rightarrow> document list \<Rightarrow> pipeline_state \<Rightarrow> document_result list \<times> pipeline_state option"
where
  "process_stream self docs st =
     (let st0 = (if \<not> thread_alive st then st\<lparr>stop_event := False, thread_alive := True\<rparr> else st)
      in case process_documents self docs st0 of
           (results, None) \<Rightarrow> (results, None)
         | (results, Some st1) \<Rightarrow>
             (results, Some (snd (run_worker self (st1\<lparr>stop_event := True\<rparr>)))))"

section \<open>Predicates of the statements and proofs\<close>

text \<open>A string with a code point that is not whitespace: \<open>strip\<close> leaves it non-empty.\<close>

definition has_text :: "pystr \<Rightarrow> bool" where
  "has_text a \<longleftrightarrow> (\<exists>c\<in>set a. \<not> is_space c)"

text \<open>A word: what \<open>str.split()\<close> returns, non-empty and free of whitespace.\<close>

definition is_word :: "pystr \<Rightarrow> bool" where
  "is_word w \<longleftrightarrow> w \<noteq> [] \<and> list_all (\<lambda>c. \<not> is_space c) w"

text \<open>The content of a sequence of strings with the whitespace normalised: its words.\<close>

definition words_of :: "pystr list \<Rightarrow> pystr list" where
  "words_of xs = concat (map split_ws xs)"

text \<open>
  The invariant of the parser's loop: the triplets emitted so far are complete, and an
  accumulator is empty or holds text.
\<close>

definition parser_inv :: "parser_state \<Rightarrow> bool" where
  "parser_inv st \<longleftrightarrow> list_all all_values (triplets st)
     \<and> (subject st = [] \<or> has_text (subject st))
     \<and> (relation st = [] \<or> has_text (relation st))
     \<and> (object st = [] \<or> has_text (object st))"

text \<open>
  Two properties of a token-length oracle. Joining two texts with a space costs no more
  tokens than the two texts cost apart, and a trailing space never lowers the count.
\<close>

definition join_subadditive :: "extractor \<Rightarrow> bool" where
  "join_subadditive self \<longleftrightarrow>
     (\<forall>a b. get_token_length self (a @ py '' '' @ b)
              \<le> get_token_length self a + get_token_length self b)"

definition space_monotone :: "extractor \<Rightarrow> bool" where
  "space_monotone self \<longleftrightarrow>
     (\<forall>w. get_token_length self w \<le> get_token_length self (w @ py '' ''))"

text \<open>A segment that is within the budget, or is one word.\<close>

definition segment_ok :: "extractor \<Rightarrow> pystr \<Rightarrow> bool" where
  "segment_ok self s \<longleftrightarrow> get_token_length self s \<le> safe_length self \<or> is_word s"

text \<open>The token count that the word loop keeps for its pending words.\<close>

definition word_tokens_sum :: "extractor \<Rightarrow> pystr list \<Rightarrow> int" where
  "word_tokens_sum self ws = sum_list (map (\<lambda>w. get_token_length self (w @ py '' '')) ws)"

definition sentence_tokens_sum :: "extractor \<Rightarrow> pystr list \<Rightarrow> int" where
  "sentence_tokens_sum self xs = sum_list (map (get_token_length self) xs)"

text \<open>
  What \<open>process_segment\<close> returns for a segment and the model calls it makes; neither
  depends on the log it is handed.
\<close>

definition segment_triplets :: "extractor \<Rightarrow> pystr \<Rightarrow> pystr \<Rightarrow> triplet list" where
  "segment_triplets self segment src_lang =
     (case fst (process_segment self segment src_lang []) of Inl e \<Rightarrow> [] | Inr ts \<Rightarrow> ts)"

definition segment_calls :: "extractor \<Rightarrow> pystr \<Rightarrow> pystr \<Rightarrow> call_log" where
  "segment_calls self segment src_lang = snd (process_segment self segment src_lang [])"

text \<open>The result that the worker puts on the output queue for a work item.\<close>

definition item_result :: "extractor \<Rightarrow> work_item \<Rightarrow> segment_result" where
  "item_result self item =
     \<lparr>result_doc_id = item_doc_id item,
      result_triplets = segment_triplets self (item_segment item) (item_src_lang item)\<rparr>"

definition item_calls :: "extractor \<Rightarrow> work_item \<Rightarrow> call_log" where
  "item_calls self item = segment_calls self (item_segment item) (item_src_lang item)"

text \<open>The state after the worker has processed the items \<open>done\<close> and left the items \<open>rest\<close>.\<close>

definition worked :: "extractor \<Rightarrow> work_item list \<Rightarrow> work_item list \<Rightarrow> pipeline_state \<Rightarrow> pipeline_state" where
  "worked self done rest st =
     st\<lparr>input_queue := rest,
        output_queue := output_queue st @ map (item_result self) done,
        inference_log := inference_log st @ concat (map (item_calls self) done)\<rparr>"

text \<open>A result that belongs to the document \<open>d\<close>.\<close>

definition tagged :: "pystr \<Rightarrow> segment_result \<Rightarrow> bool" where
  "tagged d r \<longleftrightarrow> result_doc_id r = d"

text \<open>The worker thread is alive and has not been told to stop.\<close>

definition running :: "pipeline_state \<Rightarrow> bool" where
  "running st \<longleftrightarrow> thread_alive st \<and> \<not> stop_event st"

definition queues_empty :: "pipeline_state \<Rightarrow> bool" where
  "queues_empty st \<longleftrightarrow> input_queue st = [] \<and> output_queue st = []"

text \<open>
  The result expected for a document: the triplets of its segments, in the order of the
  segments, and the number of its segments.
\<close>

definition expected_result :: "extractor \<Rightarrow> document \<Rightarrow> document_result" where
  "expected_result self doc =
     (let text = document_stripped doc;
          src_lang = detect_language self text;
          segments = segment_document self text
      in \<lparr>final_doc_id = document_identifier self doc, final_language = src_lang,
           final_triplets = concat (map (\<lambda>segment. segment_triplets self segment src_lang) segments),
           final_num_segments = length segments, final_path = document_path doc\<rparr>)"

definition has_text_document :: "document \<Rightarrow> bool" where
  "has_text_document doc \<longleftrightarrow> document_stripped doc \<noteq> []"

section \<open>Concrete extractors, documents and states\<close>

text \<open>
  An extractor whose tokenizer yields one token per code point and adds none of its
  own; its budget is \<open>int(0.9 * 19) = 17\<close>.
\<close>

definition char_extractor :: extractor where
  "char_extractor =
     \<lparr>get_token_length = (\<lambda>text. int (length text)),
      sent_tokenize = (\<lambda>text. if text = py ''It rains. We stay.''
                                 then [py ''It rains.'', py ''We stay.''] else [text]),
      detect_language = (\<lambda>text. py ''en_XX''),
      run_inference = (\<lambda>segment src_lang. Inr None),
      batch_decode = (\<lambda>ids. Inr []),
      max_length = 19, safe_length = 17, batch_size = 8, queue_size = 1000,
      timestamp_id = py ''0.0''\<rparr>"

text \<open>
  An extractor whose tokenizer yields one token per code point and one end marker; its
  budget is \<open>int(0.9 * 14) = 12\<close>. Its model answers every segment with the same
  triplet.
\<close>

definition byte_extractor :: extractor where
  "byte_extractor =
     \<lparr>get_token_length = (\<lambda>text. int (length text) + 1),
      sent_tokenize = (\<lambda>text. if text = py ''It rains. We stay. Supercalifragilistic day.''
                                 then [py ''It rains.'', py ''We stay.'', py ''Supercalifragilistic day.'']
                                 else [text]),
      detect_language = (\<lambda>text. py ''en_XX''),
      run_inference = (\<lambda>segment src_lang. Inr (Some [Some [250058, 17, 2]])),
      batch_decode = (\<lambda>ids. Inr [py ''<triplet> Rome <loc> Italy <loc> capital of'']),
      max_length = 14, safe_length = 12, batch_size = 2, queue_size = 3,
      timestamp_id = py ''0.0''\<rparr>"

text \<open>The same extractor with a model that raises on every call.\<close>

definition failing_extractor :: extractor where
  "failing_extractor =
     byte_extractor\<lparr>run_inference := (\<lambda>segment src_lang. Inl (Exception ''model failure''))\<rparr>"

text \<open>The same extractor constructed with \<open>batch_size=0\<close>.\<close>

definition zero_batch_extractor :: extractor where
  "zero_batch_extractor = byte_extractor\<lparr>batch_size := 0\<rparr>"

definition weather_document :: document where
  "weather_document =
     \<lparr>document_id = Some (py ''doc1''),
      document_text = Some (py '' It rains. We stay. Supercalifragilistic day. ''),
      document_path = None\<rparr>"

text \<open>The pipeline after its construction: empty queues, no thread.\<close>

definition fresh_state :: pipeline_state where
  "fresh_state = \<lparr>input_queue = [], output_queue = [], stop_event = False,
     thread_alive = False, inference_log = []\<rparr>"

definition rome_triplet :: triplet where
  "rome_triplet = \<lparr>head = py ''Rome'', head_type = py ''loc'', type = py ''capital of'',
     tail = py ''Italy'', tail_type = py ''loc''\<rparr>"

text \<open>The failing extractor constructed with \<open>batch_size=0\<close>.\<close>

definition stalled_extractor :: extractor where
  "stalled_extractor = failing_extractor\<lparr>batch_size := 0\<rparr>"

text \<open>A pipeline with three queued items whose stop event has been set.\<close>

definition stopping_state :: pipeline_state where
  "stopping_state =
     \<lparr>input_queue = make_items (py ''doc1'') (py ''en_XX'')
        [py ''It rains.'', py ''Supercalifragilistic'', py ''day.''],
      output_queue = [], stop_event = True, thread_alive = True, inference_log = []\<rparr>"

text \<open>The identifier and the number of segments of a document.\<close>

definition expected_count :: "extractor \<Rightarrow> document \<Rightarrow> pystr \<times> nat" where
  "expected_count self doc =
     (document_identifier self doc, length (segment_document self (document_stripped doc)))"

text \<open>The result of a document none of whose segments yields a triplet.\<close>

definition empty_result :: "extractor \<Rightarrow> document \<Rightarrow> document_result" where
  "empty_result self doc =
     \<lparr>final_doc_id = document_identifier self doc,
      final_language = detect_language self (document_stripped doc),
      final_triplets = [],
      final_num_segments = length (segment_document self (document_stripped doc)),
      final_path = document_path doc\<rparr>"

section \<open>Facts about the string operations\<close>

lemma dropWhile_all: "(\<forall>x\<in>set (dropWhile P xs). P x) \<longleftrightarrow> (\<forall>x\<in>set xs. P x)"
  by (induction xs) auto

lemma strip_eq_Nil: "strip s = [] \<longleftrightarrow> \<not> has_text s"
  by (simp add: strip_def has_text_def dropWhile_all)

lemma split_from_words:
  "list_all (\<lambda>c. \<not> is_space c) word \<Longrightarrow> w \<in> set (split_from word s) \<Longrightarrow> is_word w"
proof (induction s arbitrary: word)
  case Nil
  then show ?case by (auto simp: is_word_def split: if_splits)
next
  case (Cons c cs)
  show ?case
  proof (cases "is_space c")
    case True
    with Cons.prems have "w = word \<and> word \<noteq> [] \<or> w \<in> set (split_from [] cs)"
      by (auto split: if_splits)
    then show ?thesis
      using Cons.IH [of "[]"] Cons.prems(1) by (auto simp: is_word_def)
  next
    case False
    with Cons.prems have "w \<in> set (split_from (word @ [c]) cs)" by simp
    moreover have "list_all (\<lambda>c. \<not> is_space c) (word @ [c])"
      using Cons.prems(1) False by simp
    ultimately show ?thesis by (rule Cons.IH [rotated])
  qed
qed

lemma split_ws_words: "w \<in> set (split_ws s) \<Longrightarrow> is_word w"
  unfolding split_ws_def by (rule split_from_words [of "[]"]) simp_all

lemma space_is_space: "is_space 32"
  by (simp add: is_space_def)

lemma py_space: "py '' '' = [32]"
  by (simp add: py_def)

lemma split_from_append_space:
  "is_space sp \<Longrightarrow> split_from word (a @ sp # b) = split_from word a @ split_from [] b"
  by (induction a arbitrary: word) simp_all

lemma split_from_no_space:
  "list_all (\<lambda>c. \<not> is_space c) s \<Longrightarrow> word @ s \<noteq> [] \<Longrightarrow> split_from word s = [word @ s]"
  by (induction s arbitrary: word) simp_all

lemma split_ws_word: "is_word w \<Longrightarrow> split_ws w = [w]"
  using split_from_no_space [of w "[]"] by (simp add: is_word_def split_ws_def)

lemma split_ws_join: "split_ws (join_sp xs) = words_of xs"
proof (induction xs rule: join_sp.induct)
  case 1
  show ?case by (simp add: split_ws_def words_of_def)
next
  case (2 x)
  show ?case by (simp add: words_of_def)
next
  case (3 x y ys)
  have "split_ws (join_sp (x # y # ys)) = split_ws x @ split_ws (join_sp (y # ys))"
    using split_from_append_space [OF space_is_space, of "[]" x "join_sp (y # ys)"]
    by (simp add: split_ws_def py_space)
  with 3 show ?case by (simp add: words_of_def)
qed

lemma words_of_append [simp]: "words_of (xs @ ys) = words_of xs @ words_of ys"
  by (simp add: words_of_def)

lemma words_of_Nil [simp]: "words_of [] = []"
  by (simp add: words_of_def)

lemma words_of_single [simp]: "words_of [x] = split_ws x"
  by (simp add: words_of_def)

lemma words_of_Cons: "words_of (x # xs) = split_ws x @ words_of xs"
  by (simp add: words_of_def)

lemma words_of_split: "words_of (split_ws s) = split_ws s"
proof -
  have "list_all is_word ws \<Longrightarrow> words_of ws = ws" for ws
    by (induction ws) (simp_all add: words_of_Cons split_ws_word)
  then show ?thesis by (simp add: list_all_iff split_ws_words)
qed

lemma words_of_flush: "words_of (flush segments xs) = words_of segments @ words_of xs"
  by (simp add: flush_def split_ws_join)

section \<open>The parser\<close>

lemmas parser_eval = extract_triplets_typed_def try_parse_def tokenize_def split_ws_def py_def
  strip_def is_space_def startswith_def endswith_def step_def initial_state_def final_flush_def
  candidate_def append_if_complete_def all_values_def inner_def

text \<open>
  The token after \<open><triplet>\<close> is the head, the first bracketed tag is the head's type,
  the tokens after it are the tail, the second bracketed tag is the tail's type and the
  tokens after it are the relation.
\<close>

lemma parser_grammar_example:
  "extract_triplets_typed (py ''<triplet> Apple <org> Cupertino <loc> headquartered in'') =
     Inr [\<lparr>head = py ''Apple'', head_type = py ''org'', type = py ''headquartered in'',
          tail = py ''Cupertino'', tail_type = py ''loc''\<rparr>]"
  by (simp add: parser_eval)

text \<open>
  C1, as the specification states it, fails: on the input
  \<open><triplet> Apple <org> headquartered in <loc> Cupertino\<close> the parser does not return the
  triplet with relation \<open>headquartered in\<close> and tail \<open>Cupertino\<close>.
\<close>

theorem parser_example_counterexample:
  "extract_triplets_typed (py ''<triplet> Apple <org> headquartered in <loc> Cupertino'') \<noteq>
     Inr [\<lparr>head = py ''Apple'', head_type = py ''org'', type = py ''headquartered in'',
          tail = py ''Cupertino'', tail_type = py ''loc''\<rparr>]"
  by (simp add: parser_eval)

text \<open>
  C1, amended: on the input \<open><triplet> Apple <org> headquartered in <loc> Cupertino\<close> the
  parser returns exactly one triplet; its head is \<open>Apple\<close>, its head type \<open>org\<close>, its
  relation \<open>Cupertino\<close>, its tail \<open>headquartered in\<close> and its tail type \<open>loc\<close>.
\<close>

theorem parser_example:
  "extract_triplets_typed (py ''<triplet> Apple <org> headquartered in <loc> Cupertino'') =
     Inr [\<lparr>head = py ''Apple'', head_type = py ''org'', type = py ''Cupertino'',
          tail = py ''headquartered in'', tail_type = py ''loc''\<rparr>]"
  by (simp add: parser_eval)

lemma has_text_append: "has_text (a @ b) \<longleftrightarrow> has_text a \<or> has_text b"
  by (auto simp: has_text_def)

lemma is_word_has_text: "is_word w \<Longrightarrow> has_text w"
  by (cases w) (auto simp: is_word_def has_text_def)

lemma append_if_complete_inv: "parser_inv st \<Longrightarrow> parser_inv (append_if_complete st)"
  by (simp add: parser_inv_def append_if_complete_def)

lemma append_if_complete_fields [simp]:
  "subject (append_if_complete st) = subject st"
  "relation (append_if_complete st) = relation st"
  "object (append_if_complete st) = object st"
  by (simp_all add: append_if_complete_def)

lemma step_inv: "parser_inv st \<Longrightarrow> is_word token \<Longrightarrow> parser_inv (step st token)"
  unfolding step_def Let_def
  by (auto simp: parser_inv_def append_if_complete_def is_word_has_text has_text_append)

lemma foldl_step_inv:
  "parser_inv st \<Longrightarrow> list_all is_word tokens \<Longrightarrow> parser_inv (foldl step st tokens)"
  by (induction tokens arbitrary: st) (simp_all add: step_inv)

lemma final_flush_complete: "parser_inv st \<Longrightarrow> list_all all_values (final_flush st)"
  by (auto simp: final_flush_def parser_inv_def all_values_def candidate_def strip_eq_Nil)

lemma initial_inv: "parser_inv initial_state"
  by (simp add: parser_inv_def initial_state_def)

lemma try_parse_complete: "try_parse text = Inr ts \<Longrightarrow> list_all all_values ts"
proof -
  assume a: "try_parse text = Inr ts"
  have "list_all is_word (tokenize text)"
    by (simp add: list_all_iff tokenize_def split_ws_words)
  then have "parser_inv (foldl step initial_state (tokenize text))"
    by (rule foldl_step_inv [OF initial_inv])
  then show ?thesis using a by (auto simp: try_parse_def dest: final_flush_complete)
qed

text \<open>
  C4: every triplet that the parser returns has its five fields non-empty, whatever
  the input and whichever flush (start marker, bracketed marker, end of the stream)
  emitted it.
\<close>

theorem parser_fields_nonempty:
  "extract_triplets_typed text = Inr ts \<Longrightarrow> t \<in> set ts \<Longrightarrow>
     head t \<noteq> [] \<and> head_type t \<noteq> [] \<and> type t \<noteq> [] \<and> tail t \<noteq> [] \<and> tail_type t \<noteq> []"
proof -
  assume a: "extract_triplets_typed text = Inr ts" and t: "t \<in> set ts"
  have "list_all all_values ts"
  proof (cases "text = []")
    case True
    with a show ?thesis by (simp add: extract_triplets_typed_def)
  next
    case False
    with a have "try_parse (strip text) = Inr ts"
      by (simp add: extract_triplets_typed_def try_parse_def)
    then show ?thesis by (rule try_parse_complete)
  qed
  with t show ?thesis by (simp add: list_all_iff all_values_def)
qed

lemma parser_drop_example:
  "extract_triplets_typed
     (py ''<s>tp_XX<triplet> Rome <loc> Italy <loc> capital of <triplet> Oslo <loc> Norway</s>'') =
     Inr [\<lparr>head = py ''Rome'', head_type = py ''loc'', type = py ''capital of'',
          tail = py ''Italy'', tail_type = py ''loc''\<rparr>]"
  by (simp add: parser_eval)

theorem parser_fields_nonempty_witness:
  "extract_triplets_typed
     (py ''<s>tp_XX<triplet> Rome <loc> Italy <loc> capital of <triplet> Oslo <loc> Norway</s>'') =
     Inr [\<lparr>head = py ''Rome'', head_type = py ''loc'', type = py ''capital of'',
          tail = py ''Italy'', tail_type = py ''loc''\<rparr>]
   \<and> head \<lparr>head = py ''Rome'', head_type = py ''loc'', type = py ''capital of'',
          tail = py ''Italy'', tail_type = py ''loc''\<rparr> \<noteq> []
   \<and> type \<lparr>head = py ''Rome'', head_type = py ''loc'', type = py ''capital of'',
          tail = py ''Italy'', tail_type = py ''loc''\<rparr> \<noteq> []"
  using parser_fields_nonempty [OF parser_drop_example,
      of "\<lparr>head = py ''Rome'', head_type = py ''loc'', type = py ''capital of'',
          tail = py ''Italy'', tail_type = py ''loc''\<rparr>"]
    parser_drop_example
  by simp

text \<open>
  C5: the parser returns a list on every string and raises on none; on the empty
  string the list is empty.
\<close>

theorem parser_total:
  "(\<exists>ts. extract_triplets_typed text = Inr ts) \<and> extract_triplets_typed [] = Inr []"
  by (simp add: extract_triplets_typed_def try_parse_def)

section \<open>The segmenter\<close>

lemma pack_words_content:
  "pack_words self words (segments, temp, len) = (segments', temp', len') \<Longrightarrow>
     words_of segments' @ words_of temp' = words_of segments @ words_of temp @ words_of words"
proof (induction words arbitrary: segments temp len)
  case Nil
  then show ?case by simp
next
  case (Cons word words)
  show ?case
  proof (cases "len + get_token_length self (word @ py '' '') > safe_length self")
    case True
    with Cons.prems have "pack_words self words
        (flush segments temp, [word], get_token_length self (word @ py '' '')) = (segments', temp', len')"
      by (simp add: Let_def)
    from Cons.IH [OF this] show ?thesis
      by (simp add: words_of_flush words_of_Cons)
  next
    case False
    with Cons.prems have "pack_words self words
        (segments, temp @ [word], len + get_token_length self (word @ py '' '')) = (segments', temp', len')"
      by (simp add: Let_def)
    from Cons.IH [OF this] show ?thesis
      by (simp add: words_of_Cons)
  qed
qed

lemma pack_sentences_content:
  "pack_sentences self sentences (segments, cur, len) = (segments', cur', len') \<Longrightarrow>
     words_of segments' @ words_of cur' = words_of segments @ words_of cur @ words_of sentences"
proof (induction sentences arbitrary: segments cur len)
  case Nil
  then show ?case by simp
next
  case (Cons sentence sentences)
  let ?tokens = "get_token_length self sentence"
  show ?case
  proof (cases "?tokens > safe_length self")
    case True
    obtain segments1 current1 length1 where
      s1: "(if cur \<noteq> [] then (segments @ [join_sp cur], [], 0) else (segments, cur, len))
             = (segments1, current1, length1)"
      using prod_cases3 by blast
    obtain segments2 temp tlen where
      s2: "pack_words self (split_ws sentence) (segments1, [], 0) = (segments2, temp, tlen)"
      using prod_cases3 by blast
    have "pack_sentences self sentences (flush segments2 temp, current1, length1)
            = (segments', cur', len')"
      using Cons.prems True s1 s2 by (simp add: Let_def)
    from Cons.IH [OF this]
    have "words_of segments' @ words_of cur'
            = words_of (flush segments2 temp) @ words_of current1 @ words_of sentences" .
    moreover have "words_of segments2 @ words_of temp = words_of segments1 @ split_ws sentence"
      using pack_words_content [OF s2] by (simp add: words_of_split)
    moreover have "words_of segments1 = words_of segments @ words_of cur" and "current1 = []"
      using s1 by (auto simp: split_ws_join split: if_splits)
    ultimately show ?thesis
      by (simp add: words_of_flush words_of_Cons)
  next
    case False
    show ?thesis
    proof (cases "len + ?tokens > safe_length self")
      case True
      with False Cons.prems have
        "pack_sentences self sentences (flush segments cur, [sentence], ?tokens) = (segments', cur', len')"
        by (simp add: Let_def)
      from Cons.IH [OF this] show ?thesis
        by (simp add: words_of_flush words_of_Cons)
    next
      case notfull: False
      with False Cons.prems have
        "pack_sentences self sentences (segments, cur @ [sentence], len + ?tokens) = (segments', cur', len')"
        by (simp add: Let_def)
      from Cons.IH [OF this] show ?thesis
        by (simp add: words_of_Cons)
    qed
  qed
qed

text \<open>
  C7: the words of the segments, in order, are the words of the sentences that the
  sentence splitter returned, in order: nothing is dropped, repeated or moved. The same
  holds of the segments joined into one string.
\<close>

theorem segments_cover_sentences:
  "words_of (segment_document self text) = words_of (sent_tokenize self text) \<and>
   split_ws (join_sp (segment_document self text)) = words_of (sent_tokenize self text)"
proof -
  obtain segments cur len where
    run: "pack_sentences self (sent_tokenize self text) ([], [], 0) = (segments, cur, len)"
    using prod_cases3 by blast
  have "words_of segments @ words_of cur = words_of (sent_tokenize self text)"
    using pack_sentences_content [OF run] by simp
  then have "words_of (segment_document self text) = words_of (sent_tokenize self text)"
    using run by (simp add: segment_document_def words_of_flush)
  then show ?thesis by (simp add: split_ws_join)
qed

text \<open>
  The budget. The sentence loop keeps the sum of the token counts of the sentences of
  the pending segment, and the word loop the sum of the counts of its words, each with
  a trailing space; the segment itself, joined, is not measured.
\<close>

lemma join_bound:
  "join_subadditive self \<Longrightarrow> xs \<noteq> [] \<Longrightarrow>
     get_token_length self (join_sp xs) \<le> sentence_tokens_sum self xs"
proof (induction xs rule: join_sp.induct)
  case 1
  then show ?case by simp
next
  case (2 x)
  show ?case by (simp add: sentence_tokens_sum_def)
next
  case (3 x y ys)
  have "get_token_length self (x @ py '' '' @ join_sp (y # ys))
          \<le> get_token_length self x + get_token_length self (join_sp (y # ys))"
    using "3.prems"(1) by (simp add: join_subadditive_def)
  moreover have "get_token_length self (join_sp (y # ys)) \<le> sentence_tokens_sum self (y # ys)"
    using "3.IH" "3.prems"(1) by simp
  ultimately show ?case by (simp add: sentence_tokens_sum_def)
qed

lemma sentence_le_word_sum:
  "space_monotone self \<Longrightarrow> sentence_tokens_sum self ws \<le> word_tokens_sum self ws"
  unfolding sentence_tokens_sum_def word_tokens_sum_def space_monotone_def
  by (induction ws) (simp_all add: add_mono)

lemma flush_words_ok:
  assumes "join_subadditive self" "space_monotone self"
    and "list_all (segment_ok self) segments" "list_all is_word temp"
    and "length temp \<le> 1 \<or> word_tokens_sum self temp \<le> safe_length self"
  shows "list_all (segment_ok self) (flush segments temp)"
proof (cases temp)
  case Nil
  with assms(3) show ?thesis by (simp add: flush_def)
next
  case (Cons w ws)
  show ?thesis
  proof (cases ws)
    case Nil
    with Cons assms(3,4) show ?thesis by (simp add: flush_def segment_ok_def)
  next
    case (Cons v vs)
    with \<open>temp = w # ws\<close> assms(5) have "word_tokens_sum self temp \<le> safe_length self" by simp
    moreover have "get_token_length self (join_sp temp) \<le> sentence_tokens_sum self temp"
      using join_bound [OF assms(1)] \<open>temp = w # ws\<close> by simp
    ultimately have "get_token_length self (join_sp temp) \<le> safe_length self"
      using sentence_le_word_sum [OF assms(2), of temp] by linarith
    with assms(3) \<open>temp = w # ws\<close> show ?thesis by (simp add: flush_def segment_ok_def)
  qed
qed

lemma pack_words_ok:
  assumes "join_subadditive self" "space_monotone self"
  shows "pack_words self words (segments, temp, len) = (segments', temp', len') \<Longrightarrow>
     list_all is_word words \<Longrightarrow> list_all (segment_ok self) segments \<Longrightarrow> list_all is_word temp \<Longrightarrow>
     len = word_tokens_sum self temp \<Longrightarrow>
     length temp \<le> 1 \<or> len \<le> safe_length self \<Longrightarrow>
     list_all (segment_ok self) (flush segments' temp')"
proof (induction words arbitrary: segments temp len)
  case Nil
  then show ?case using flush_words_ok [OF assms] by simp
next
  case (Cons word words)
  let ?wt = "get_token_length self (word @ py '' '')"
  show ?case
  proof (cases "len + ?wt > safe_length self")
    case True
    with Cons.prems(1) have run:
      "pack_words self words (flush segments temp, [word], ?wt) = (segments', temp', len')"
      by (simp add: Let_def)
    have "list_all (segment_ok self) (flush segments temp)"
      using flush_words_ok [OF assms] Cons.prems by simp
    then show ?thesis
      using Cons.IH [OF run] Cons.prems(2) by (simp add: word_tokens_sum_def)
  next
    case False
    with Cons.prems(1) have run:
      "pack_words self words (segments, temp @ [word], len + ?wt) = (segments', temp', len')"
      by (simp add: Let_def)
    show ?thesis
      using Cons.IH [OF run] Cons.prems False by (simp add: word_tokens_sum_def)
  qed
qed

lemma flush_sentences_ok:
  assumes "join_subadditive self"
    and "list_all (segment_ok self) segments"
    and "cur = [] \<or> sentence_tokens_sum self cur \<le> safe_length self"
  shows "list_all (segment_ok self) (flush segments cur)"
proof (cases "cur = []")
  case True
  with assms(2) show ?thesis by (simp add: flush_def)
next
  case False
  with assms(3) join_bound [OF assms(1) False]
  have "get_token_length self (join_sp cur) \<le> safe_length self" by linarith
  with assms(2) False show ?thesis by (simp add: flush_def segment_ok_def)
qed

lemma pack_sentences_ok:
  assumes "join_subadditive self" "space_monotone self"
  shows "pack_sentences self sentences (segments, cur, len) = (segments', cur', len') \<Longrightarrow>
     list_all (segment_ok self) segments \<Longrightarrow> len = sentence_tokens_sum self cur \<Longrightarrow>
     cur = [] \<or> len \<le> safe_length self \<Longrightarrow>
     list_all (segment_ok self) (flush segments' cur')"
proof (induction sentences arbitrary: segments cur len)
  case Nil
  then show ?case using flush_sentences_ok [OF assms(1)] by simp
next
  case (Cons sentence sentences)
  let ?tokens = "get_token_length self sentence"
  show ?case
  proof (cases "?tokens > safe_length self")
    case True
    obtain segments2 temp tlen where
      s2: "pack_words self (split_ws sentence) (flush segments cur, [], 0) = (segments2, temp, tlen)"
      using prod_cases3 by blast
    have run: "pack_sentences self sentences (flush segments2 temp, [], 0) = (segments', cur', len')"
    proof (cases "cur = []")
      case True
      with Cons.prems(3) have "len = 0" by (simp add: sentence_tokens_sum_def)
      with Cons.prems(1) \<open>?tokens > safe_length self\<close> True s2 show ?thesis
        by (simp add: Let_def flush_def)
    next
      case False
      with Cons.prems(1) \<open>?tokens > safe_length self\<close> s2 show ?thesis
        by (simp add: Let_def flush_def)
    qed
    have "list_all (segment_ok self) (flush segments cur)"
      using flush_sentences_ok [OF assms(1)] Cons.prems by simp
    then have "list_all (segment_ok self) (flush segments2 temp)"
      using pack_words_ok [OF assms s2] by (simp add: list_all_iff split_ws_words word_tokens_sum_def)
    then show ?thesis
      using Cons.IH [OF run] by (simp add: sentence_tokens_sum_def)
  next
    case False
    show ?thesis
    proof (cases "len + ?tokens > safe_length self")
      case True
      with False Cons.prems(1) have run:
        "pack_sentences self sentences (flush segments cur, [sentence], ?tokens) = (segments', cur', len')"
        by (simp add: Let_def)
      have "list_all (segment_ok self) (flush segments cur)"
        using flush_sentences_ok [OF assms(1)] Cons.prems by simp
      then show ?thesis
        using Cons.IH [OF run] False by (simp add: sentence_tokens_sum_def)
    next
      case notfull: False
      with False Cons.prems(1) have run:
        "pack_sentences self sentences (segments, cur @ [sentence], len + ?tokens) = (segments', cur', len')"
        by (simp add: Let_def)
      show ?thesis
        using Cons.IH [OF run] Cons.prems notfull by (simp add: sentence_tokens_sum_def)
    qed
  qed
qed

lemmas segmenter_eval = segment_document_def flush_def split_ws_def py_def is_space_def Let_def

lemma char_segments:
  "segment_document char_extractor (py ''It rains. We stay.'') = [py ''It rains. We stay.'']"
  by (simp add: segmenter_eval char_extractor_def)

text \<open>
  C6, as the specification states it, fails for a tokenizer that counts the joining
  space: with one token per code point and the budget 17, the sentences \<open>It rains.\<close>
  (9 tokens) and \<open>We stay.\<close> (8 tokens) are packed into one segment of 18 tokens, which
  is not a single word.
\<close>

theorem segment_budget_counterexample:
  "segment_document char_extractor (py ''It rains. We stay.'') = [py ''It rains. We stay.'']
   \<and> get_token_length char_extractor (py ''It rains. We stay.'') = 18
   \<and> safe_length char_extractor = 17
   \<and> \<not> is_word (py ''It rains. We stay.'')"
  by (simp add: segmenter_eval char_extractor_def is_word_def)

text \<open>
  C6, amended: when joining two texts with a space costs no more tokens than the two
  texts apart, and a trailing space never lowers the count, every segment is within the
  budget, except a segment that is a single word whose own token count exceeds the
  budget.
\<close>

theorem segment_budget:
  assumes "join_subadditive self" and "space_monotone self"
    and "s \<in> set (segment_document self text)"
  shows "get_token_length self s \<le> safe_length self
         \<or> (is_word s \<and> safe_length self < get_token_length self s)"
proof -
  obtain segments cur len where
    run: "pack_sentences self (sent_tokenize self text) ([], [], 0) = (segments, cur, len)"
    using prod_cases3 by blast
  have "list_all (segment_ok self) (flush segments cur)"
    using pack_sentences_ok [OF assms(1,2) run] by (simp add: sentence_tokens_sum_def)
  then have "list_all (segment_ok self) (segment_document self text)"
    using run by (simp add: segment_document_def)
  with assms(3) have "segment_ok self s" by (simp add: list_all_iff)
  then show ?thesis by (auto simp: segment_ok_def)
qed

lemma byte_segments:
  "segment_document byte_extractor (py ''It rains. We stay. Supercalifragilistic day.'') =
     [py ''It rains.'', py ''We stay.'', py ''Supercalifragilistic'', py ''day.'']"
  by (simp add: segmenter_eval byte_extractor_def)

lemma byte_extractor_oracle: "join_subadditive byte_extractor \<and> space_monotone byte_extractor"
  by (simp add: join_subadditive_def space_monotone_def byte_extractor_def py_def)

theorem segment_budget_witness:
  "join_subadditive byte_extractor \<and> space_monotone byte_extractor
   \<and> py ''Supercalifragilistic''
       \<in> set (segment_document byte_extractor (py ''It rains. We stay. Supercalifragilistic day.''))
   \<and> is_word (py ''Supercalifragilistic'')
   \<and> safe_length byte_extractor < get_token_length byte_extractor (py ''Supercalifragilistic'')
   \<and> py ''We stay.''
       \<in> set (segment_document byte_extractor (py ''It rains. We stay. Supercalifragilistic day.''))
   \<and> get_token_length byte_extractor (py ''We stay.'') \<le> safe_length byte_extractor"
proof -
  have o: "join_subadditive byte_extractor" "space_monotone byte_extractor"
    using byte_extractor_oracle by simp_all
  have m: "py ''Supercalifragilistic''
       \<in> set (segment_document byte_extractor (py ''It rains. We stay. Supercalifragilistic day.''))"
    and m2: "py ''We stay.''
       \<in> set (segment_document byte_extractor (py ''It rains. We stay. Supercalifragilistic day.''))"
    by (simp_all add: byte_segments)
  have big: "safe_length byte_extractor < get_token_length byte_extractor (py ''Supercalifragilistic'')"
    and small: "get_token_length byte_extractor (py ''We stay.'') \<le> safe_length byte_extractor"
    by (simp_all add: byte_extractor_def py_def)
  from segment_budget [OF o m] big segment_budget [OF o m2] small o m m2
  show ?thesis by simp
qed

section \<open>The inference step\<close>

lemma try_process_segment_log:
  "try_process_segment self segment src_lang calls =
     (fst (try_process_segment self segment src_lang []),
      calls @ snd (try_process_segment self segment src_lang []))"
  by (simp add: try_process_segment_def Let_def
      split: sum.splits option.splits list.splits)

lemma process_segment_log:
  "process_segment self segment src_lang calls =
     (Inr (segment_triplets self segment src_lang), calls @ segment_calls self segment src_lang)"
proof -
  obtain r c where t: "try_process_segment self segment src_lang [] = (r, c)"
    by (cases "try_process_segment self segment src_lang []")
  then have "try_process_segment self segment src_lang calls = (r, calls @ c)"
    using try_process_segment_log [of self segment src_lang calls] by simp
  with t show ?thesis
    by (cases r) (simp_all add: process_segment_def segment_triplets_def segment_calls_def)
qed

lemma over_budget_segment:
  "safe_length self < get_token_length self segment \<Longrightarrow>
     segment_triplets self segment src_lang = [] \<and> segment_calls self segment src_lang = []"
  by (simp add: segment_triplets_def segment_calls_def process_segment_def try_process_segment_def)

lemma failed_inference_segment:
  "run_inference self segment src_lang = Inl e \<Longrightarrow> segment_triplets self segment src_lang = []"
  by (simp add: segment_triplets_def process_segment_def try_process_segment_def Let_def)

lemmas pipeline_eval = byte_extractor_def failing_extractor_def zero_batch_extractor_def
  weather_document_def fresh_state_def rome_triplet_def

text \<open>
  C10: for a segment whose token count exceeds the budget, \<open>process_segment\<close> returns
  the empty list and leaves the log of model calls as it was: the model is not called.
  The result that the worker enqueues for such a segment carries no triplet.
\<close>

theorem over_budget_segment_skipped:
  "safe_length self < get_token_length self segment \<Longrightarrow>
     process_segment self segment src_lang calls = (Inr [], calls)
     \<and> item_result self \<lparr>item_doc_id = d, item_segment = segment, item_src_lang = src_lang\<rparr>
         = \<lparr>result_doc_id = d, result_triplets = []\<rparr>
     \<and> item_calls self \<lparr>item_doc_id = d, item_segment = segment, item_src_lang = src_lang\<rparr> = []"
  by (simp add: process_segment_log over_budget_segment item_result_def item_calls_def)

lemma within_budget_example:
  "process_segment byte_extractor (py ''day.'') (py ''en_XX'') [] =
     (Inr [rome_triplet], [(py ''day.'', py ''en_XX'')])"
  by (simp add: process_segment_def try_process_segment_def pipeline_eval parser_eval)

theorem over_budget_segment_skipped_witness:
  "safe_length byte_extractor < get_token_length byte_extractor (py ''Supercalifragilistic'')
   \<and> process_segment byte_extractor (py ''Supercalifragilistic'') (py ''en_XX'') [] = (Inr [], [])
   \<and> process_segment byte_extractor (py ''day.'') (py ''en_XX'') [] =
       (Inr [rome_triplet], [(py ''day.'', py ''en_XX'')])"
proof -
  have big: "safe_length byte_extractor < get_token_length byte_extractor (py ''Supercalifragilistic'')"
    by (simp add: byte_extractor_def py_def)
  from over_budget_segment_skipped [OF big, of "py ''en_XX''" "[]"] big within_budget_example
  show ?thesis by simp
qed

section \<open>The worker\<close>

lemma process_items_worked:
  "process_items self items st = (None, worked self items (input_queue st) st)"
proof (induction items arbitrary: st)
  case Nil
  show ?case by (simp add: worked_def)
next
  case (Cons item items)
  show ?case
    by (simp add: process_segment_log Cons.IH)
      (simp add: worked_def put_result_def item_result_def item_calls_def)
qed

lemma process_batch_worked:
  "process_batch self batch st = worked self batch (input_queue st) st"
  by (simp add: process_batch_def process_items_worked)

lemma drain_batch_take:
  "drain_batch bs batch queue =
     (batch @ take (nat bs - length batch) queue, drop (nat bs - length batch) queue)"
proof (induction queue arbitrary: batch)
  case Nil
  show ?case by simp
next
  case (Cons item queue)
  show ?case
  proof (cases "int (length batch) < bs")
    case True
    then have "nat bs - length batch = Suc (nat bs - length (batch @ [item]))" by simp
    with True show ?thesis by (simp add: Cons.IH)
  next
    case False
    then have "nat bs - length batch = 0" by linarith
    with False show ?thesis by simp
  qed
qed

lemma worked_worked:
  "worked self ys rest (worked self xs mid st) = worked self (xs @ ys) rest st"
  by (simp add: worked_def)

lemma process_queue_drains:
  assumes "0 < batch_size self"
  shows "process_queue self st =
     (if stop_event st then (Exited, (worked self (input_queue st) [] st)\<lparr>thread_alive := False\<rparr>)
      else (Idle, worked self (input_queue st) [] st))"
proof (induction "length (input_queue st)" arbitrary: st rule: less_induct)
  case less
  let ?q = "input_queue st"
  let ?n = "nat (batch_size self)"
  have dr: "drain_batch (batch_size self) [] ?q = (take ?n ?q, drop ?n ?q)"
    by (simp add: drain_batch_take)
  show ?case
  proof (cases "?q = []")
    case True
    then have w: "worked self ?q [] st = st" by (simp add: worked_def)
    show ?thesis
      using process_queue.simps [of self st] by (simp add: True worked_def)
  next
    case False
    from assms have "0 < ?n" by simp
    with False have ne: "take ?n ?q \<noteq> []" by (cases ?q) simp_all
    let ?st' = "worked self (take ?n ?q) (drop ?n ?q) st"
    have "process_batch self (take ?n ?q) (st\<lparr>input_queue := drop ?n ?q\<rparr>) = ?st'"
      by (simp add: process_batch_worked worked_def)
    then have step: "process_queue self st = process_queue self ?st'"
      using process_queue.simps [of self st] False dr ne by simp
    have "length (input_queue ?st') < length ?q"
      using False \<open>0 < ?n\<close> by (simp add: worked_def)
    from less [OF this] have
      "process_queue self ?st' =
        (if stop_event ?st' then (Exited, (worked self (input_queue ?st') [] ?st')\<lparr>thread_alive := False\<rparr>)
         else (Idle, worked self (input_queue ?st') [] ?st'))" .
    moreover have "input_queue ?st' = drop ?n ?q" "stop_event ?st' = stop_event st"
      by (simp_all add: worked_def)
    moreover have "worked self (drop ?n ?q) [] ?st' = worked self ?q [] st"
      by (simp add: worked_worked)
    ultimately show ?thesis using step by simp
  qed
qed

section \<open>The correlator\<close>

lemma collect_Some:
  "collect d n sp acc q = Some (ts, rest) \<Longrightarrow>
     \<exists>consumed. q = consumed @ rest \<and> length (filter (tagged d) consumed) = n - sp
       \<and> (consumed \<noteq> [] \<longrightarrow> tagged d (last consumed))
       \<and> ts = acc @ concat (map result_triplets (filter (tagged d) consumed))"
proof (induction q arbitrary: sp acc)
  case Nil
  then show ?case by (simp split: if_splits)
next
  case (Cons r q)
  show ?case
  proof (cases "sp < n")
    case False
    with Cons.prems show ?thesis by simp
  next
    case True
    show ?thesis
    proof (cases "tagged d r")
      case tag: True
      with True Cons.prems have "collect d n (sp + 1) (acc @ result_triplets r) q = Some (ts, rest)"
        by (simp add: tagged_def)
      from Cons.IH [OF this] obtain consumed where
        c: "q = consumed @ rest" "length (filter (tagged d) consumed) = n - (sp + 1)"
          "consumed \<noteq> [] \<longrightarrow> tagged d (last consumed)"
          "ts = (acc @ result_triplets r) @ concat (map result_triplets (filter (tagged d) consumed))"
        by blast
      have "r # q = (r # consumed) @ rest" using c(1) by simp
      moreover have "length (filter (tagged d) (r # consumed)) = n - sp"
        using c(2) tag True by simp
      moreover have "tagged d (last (r # consumed))" using c(3) tag by simp
      moreover have "ts = acc @ concat (map result_triplets (filter (tagged d) (r # consumed)))"
        using c(4) tag by simp
      ultimately show ?thesis by blast
    next
      case notag: False
      with True Cons.prems have "collect d n sp acc q = Some (ts, rest)"
        by (simp add: tagged_def)
      from Cons.IH [OF this] obtain consumed where
        c: "q = consumed @ rest" "length (filter (tagged d) consumed) = n - sp"
          "consumed \<noteq> [] \<longrightarrow> tagged d (last consumed)"
          "ts = acc @ concat (map result_triplets (filter (tagged d) consumed))"
        by blast
      from c(2) True have ne: "consumed \<noteq> []" by auto
      have "r # q = (r # consumed) @ rest" using c(1) by simp
      moreover have "length (filter (tagged d) (r # consumed)) = n - sp"
        using c(2) notag by simp
      moreover have "tagged d (last (r # consumed))" using c(3) ne by simp
      moreover have "ts = acc @ concat (map result_triplets (filter (tagged d) (r # consumed)))"
        using c(4) notag by simp
      ultimately show ?thesis by blast
    qed
  qed
qed

lemma collect_enough:
  "n - sp \<le> length (filter (tagged d) q) \<Longrightarrow> \<exists>ts rest. collect d n sp acc q = Some (ts, rest)"
proof (induction q arbitrary: sp acc)
  case Nil
  then show ?case by simp
next
  case (Cons r q)
  show ?case
  proof (cases "sp < n")
    case False
    then show ?thesis by simp
  next
    case True
    show ?thesis
    proof (cases "tagged d r")
      case tag: True
      with Cons.prems have "n - (sp + 1) \<le> length (filter (tagged d) q)" by simp
      from Cons.IH [OF this, of "acc @ result_triplets r"] True tag show ?thesis
        by (simp add: tagged_def)
    next
      case notag: False
      with Cons.prems have "n - sp \<le> length (filter (tagged d) q)" by simp
      from Cons.IH [OF this, of acc] True notag show ?thesis
        by (simp add: tagged_def)
    qed
  qed
qed

lemma collect_short:
  "length (filter (tagged d) q) < n - sp \<Longrightarrow> collect d n sp acc q = None"
proof (induction q arbitrary: sp acc)
  case Nil
  then show ?case by simp
next
  case (Cons r q)
  then have "sp < n" by simp
  show ?case
  proof (cases "tagged d r")
    case True
    with Cons.prems have "length (filter (tagged d) q) < n - (sp + 1)" by simp
    from Cons.IH [OF this, of "acc @ result_triplets r"] \<open>sp < n\<close> True show ?thesis
      by (simp add: tagged_def)
  next
    case False
    with Cons.prems have "length (filter (tagged d) q) < n - sp" by simp
    from Cons.IH [OF this, of acc] \<open>sp < n\<close> False show ?thesis
      by (simp add: tagged_def)
  qed
qed

lemma collect_all_tagged:
  "list_all (tagged d) q \<Longrightarrow> sp + length q = n \<Longrightarrow>
     collect d n sp acc q = Some (acc @ concat (map result_triplets q), [])"
  by (induction q arbitrary: sp acc) (auto simp: tagged_def)

text \<open>
  C2, as the specification states it, fails: while the results of \<open>doc1\<close> are
  collected, a result of \<open>doc2\<close> that is taken from the queue is dropped; the queue is
  empty afterwards, and a correlation of \<open>doc2\<close> on it waits for ever.
\<close>

theorem correlator_discards_counterexample:
  "correlate (py ''doc1'') (py ''en_XX'') None [py ''It rains.'']
     [\<lparr>result_doc_id = py ''doc2'', result_triplets = [rome_triplet]\<rparr>,
      \<lparr>result_doc_id = py ''doc1'', result_triplets = []\<rparr>]
   = Some (\<lparr>final_doc_id = py ''doc1'', final_language = py ''en_XX'', final_triplets = [],
            final_num_segments = 1, final_path = None\<rparr>, [])
   \<and> correlate (py ''doc2'') (py ''en_XX'') None [py ''Rome is the capital of Italy.''] [] = None"
  by (simp add: correlate_def py_def)

lemma collect_prefix:
  "length (filter (tagged d) taken) = n - sp \<Longrightarrow> (taken \<noteq> [] \<longrightarrow> tagged d (last taken)) \<Longrightarrow>
     collect d n sp acc (taken @ rest)
       = Some (acc @ concat (map result_triplets (filter (tagged d) taken)), rest)"
proof (induction taken arbitrary: sp acc)
  case Nil
  then have "\<not> sp < n" by simp
  then show ?case by (cases rest) simp_all
next
  case (Cons r taken)
  have "filter (tagged d) (r # taken) \<noteq> []"
    using Cons.prems(2) by (auto simp: filter_empty_conv split: if_splits)
  with Cons.prems(1) have sp: "sp < n" by (cases "sp < n") auto
  show ?case
  proof (cases "tagged d r")
    case True
    with Cons.prems(1) sp have cnt: "length (filter (tagged d) taken) = n - (sp + 1)" by simp
    have lst: "taken \<noteq> [] \<longrightarrow> tagged d (last taken)" using Cons.prems(2) by auto
    from Cons.IH [OF cnt lst, of "acc @ result_triplets r"] show ?thesis
      using sp True by (simp add: tagged_def)
  next
    case False
    with Cons.prems(2) have ne: "taken \<noteq> []" by auto
    with Cons.prems(2) have lst: "taken \<noteq> [] \<longrightarrow> tagged d (last taken)" by simp
    from Cons.prems(1) False have cnt: "length (filter (tagged d) taken) = n - sp" by simp
    from Cons.IH [OF cnt lst, of acc] show ?thesis
      using sp False by (simp add: tagged_def)
  qed
qed

text \<open>
  C2, amended: the correlator of a document \<open>d\<close> takes the results from the output
  queue in their order, up to the one that completes the count and no further; it
  aggregates the triplets of those tagged \<open>d\<close> and drops the others, which are neither
  counted nor put back; the results behind the last one taken stay on the queue.
\<close>

theorem correlator_takes_in_order:
  "collect d n 0 [] queue = Some (doc_results, rest) \<longleftrightarrow>
     (\<exists>taken. queue = taken @ rest
        \<and> length (filter (tagged d) taken) = n
        \<and> (taken \<noteq> [] \<longrightarrow> tagged d (last taken))
        \<and> doc_results = concat (map result_triplets (filter (tagged d) taken)))"
proof
  assume "collect d n 0 [] queue = Some (doc_results, rest)"
  from collect_Some [OF this]
  show "\<exists>taken. queue = taken @ rest
        \<and> length (filter (tagged d) taken) = n
        \<and> (taken \<noteq> [] \<longrightarrow> tagged d (last taken))
        \<and> doc_results = concat (map result_triplets (filter (tagged d) taken))"
    by auto
next
  assume "\<exists>taken. queue = taken @ rest
        \<and> length (filter (tagged d) taken) = n
        \<and> (taken \<noteq> [] \<longrightarrow> tagged d (last taken))
        \<and> doc_results = concat (map result_triplets (filter (tagged d) taken))"
  then obtain taken where t: "queue = taken @ rest" "length (filter (tagged d) taken) = n - 0"
    "taken \<noteq> [] \<longrightarrow> tagged d (last taken)"
    "doc_results = concat (map result_triplets (filter (tagged d) taken))"
    by auto
  from collect_prefix [OF t(2,3), of "[]" rest] t(1,4)
  show "collect d n 0 [] queue = Some (doc_results, rest)" by simp
qed

theorem correlator_takes_in_order_witness:
  "collect (py ''doc1'') 1 0 []
     [\<lparr>result_doc_id = py ''doc2'', result_triplets = [rome_triplet]\<rparr>,
      \<lparr>result_doc_id = py ''doc1'', result_triplets = []\<rparr>,
      \<lparr>result_doc_id = py ''doc2'', result_triplets = []\<rparr>]
     = Some ([], [\<lparr>result_doc_id = py ''doc2'', result_triplets = []\<rparr>])
   \<and> (\<exists>taken.
        [\<lparr>result_doc_id = py ''doc2'', result_triplets = [rome_triplet]\<rparr>,
         \<lparr>result_doc_id = py ''doc1'', result_triplets = []\<rparr>,
         \<lparr>result_doc_id = py ''doc2'', result_triplets = []\<rparr>]
          = taken @ [\<lparr>result_doc_id = py ''doc2'', result_triplets = []\<rparr>]
        \<and> length (filter (tagged (py ''doc1'')) taken) = 1
        \<and> tagged (py ''doc1'') (last taken)
        \<and> [] = concat (map result_triplets (filter (tagged (py ''doc1'')) taken)))"
proof -
  have c: "collect (py ''doc1'') 1 0 []
     [\<lparr>result_doc_id = py ''doc2'', result_triplets = [rome_triplet]\<rparr>,
      \<lparr>result_doc_id = py ''doc1'', result_triplets = []\<rparr>,
      \<lparr>result_doc_id = py ''doc2'', result_triplets = []\<rparr>]
     = Some ([], [\<lparr>result_doc_id = py ''doc2'', result_triplets = []\<rparr>])"
    by (simp add: py_def)
  from correlator_takes_in_order [THEN iffD1, OF c] obtain taken where
    "[\<lparr>result_doc_id = py ''doc2'', result_triplets = [rome_triplet]\<rparr>,
      \<lparr>result_doc_id = py ''doc1'', result_triplets = []\<rparr>,
      \<lparr>result_doc_id = py ''doc2'', result_triplets = []\<rparr>]
       = taken @ [\<lparr>result_doc_id = py ''doc2'', result_triplets = []\<rparr>]"
    "length (filter (tagged (py ''doc1'')) taken) = 1"
    "taken \<noteq> [] \<longrightarrow> tagged (py ''doc1'') (last taken)"
    "[] = concat (map result_triplets (filter (tagged (py ''doc1'')) taken))"
    by blast
  moreover from this(2) have "taken \<noteq> []" by auto
  ultimately show ?thesis using c by blast
qed

end
